theory Spec2Isabelle
  imports Main "HOL-Library.Multiset"
begin

section \<open>FIFO page replacement simulator (src/pages/FIFOSimulator.jsx)\<close>

text \<open>
  The component's callback \<^verbatim>\<open>runFIFOSimulation\<close> parses and validates the two inputs and
  then runs the FIFO loop. The embedding follows the callback line by line. It is cut at
  the callback's own section comments into \<open>validate\<close> (input validation and parsing),
  \<open>simulate\<close> (variable initialisation and the simulation loop) and
  \<open>runFIFOSimulation\<close> (the two in sequence).
\<close>

subsection \<open>JavaScript values\<close>

text \<open>
  A frame slot holds \<^verbatim>\<open>null\<close> or a page number; \<^verbatim>\<open>loadOrder.shift()\<close> on an empty array
  yields \<^verbatim>\<open>undefined\<close>. Page numbers are the integer values produced by \<^verbatim>\<open>parseInt\<close>.
\<close>

datatype jsval = Null | Undefined | Num int

text \<open>
  \<^verbatim>\<open>Array.prototype.indexOf\<close>: the first index holding the value (strict equality), or -1.
\<close>

fun indexOf_from :: "'a list \<Rightarrow> 'a \<Rightarrow> int \<Rightarrow> int" where
  "indexOf_from [] v i = - 1"
| "indexOf_from (x # xs) v i = (if x = v then i else indexOf_from xs v (i + 1))"

definition indexOf :: "'a list \<Rightarrow> 'a \<Rightarrow> int" where
  "indexOf xs v = indexOf_from xs v 0"

text \<open>
  \<^verbatim>\<open>Array.prototype.includes\<close> on an array without holes.
\<close>

definition array_includes :: "'a list \<Rightarrow> 'a \<Rightarrow> bool" where
  "array_includes xs v = (v \<in> set xs)"

text \<open>
  The assignment \<^verbatim>\<open>frames[i] = v\<close> for an index that comes from \<open>indexOf\<close>, so
  \<open>- 1 \<le> i < length frames\<close>. At \<open>i = - 1\<close> JavaScript sets the property named "-1" of the
  array object: no element changes, and neither \<^verbatim>\<open>includes\<close>, \<^verbatim>\<open>indexOf\<close> nor the spread
  copy sees that property.
\<close>

definition assign_index :: "'a list \<Rightarrow> int \<Rightarrow> 'a \<Rightarrow> 'a list" where
  "assign_index xs i v = (if 0 \<le> i \<and> i < int (length xs) then xs[nat i := v] else xs)"

text \<open>
  \<^verbatim>\<open>loadOrder.shift()\<close>: the removed front element and the remaining queue; \<^verbatim>\<open>undefined\<close>
  and the unchanged empty queue when there is nothing to remove.
\<close>

fun shift :: "int list \<Rightarrow> jsval \<times> int list" where
  "shift [] = (Undefined, [])"
| "shift (v # rest) = (Num v, rest)"

subsection \<open>Snapshots and the loop state\<close>

text \<open>
  The object pushed onto \<^verbatim>\<open>steps\<close>. \<open>frameRanks\<close> is the object \<^verbatim>\<open>rankMap\<close>, a dictionary
  from page number to its 1-based position in \<^verbatim>\<open>loadOrder\<close>.
\<close>

record snapshot =
  pageReference :: int
  frames :: "jsval list"
  isFault :: bool
  replacedPage :: jsval
  frameRanks :: "int \<rightharpoonup> nat"

text \<open>
  The four variables the loop mutates. \<open>memory\<close> is the local array \<^verbatim>\<open>frames\<close> (the name
  \<open>frames\<close> is taken by the snapshot field).
\<close>

record sim =
  memory :: "jsval list"
  loadOrder :: "int list"
  totalFaults :: nat
  steps :: "snapshot list"

text \<open>
  Step 3 of the loop body: \<^verbatim>\<open>loadOrder.forEach((p, index) => { rankMap[p] = index + 1 })\<close>
  on a fresh object.
\<close>

definition set_rank :: "int \<times> nat \<Rightarrow> (int \<rightharpoonup> nat) \<Rightarrow> (int \<rightharpoonup> nat)" where
  "set_rank = (\<lambda>(p, index) rankMap. rankMap(p \<mapsto> index + 1))"

definition rankMap :: "int list \<Rightarrow> (int \<rightharpoonup> nat)" where
  "rankMap lo = fold set_rank (zip lo [0 ..< length lo]) Map.empty"

text \<open>
  Steps 1 and 2 of the loop body: the hit test, the load into the first free frame, and
  the replacement of the oldest page. The result is the new \<^verbatim>\<open>frames\<close>, the new
  \<^verbatim>\<open>loadOrder\<close>, \<^verbatim>\<open>isFault\<close> and \<^verbatim>\<open>replacedPage\<close>.
\<close>

definition reference :: "jsval list \<Rightarrow> int list \<Rightarrow> int \<Rightarrow> jsval list \<times> int list \<times> bool \<times> jsval" where
  "reference fr lo page =
     (if array_includes fr (Num page) then (fr, lo, False, Null)
      else
        let freeIndex = indexOf fr Null in
        if freeIndex \<noteq> - 1 then (assign_index fr freeIndex (Num page), lo @ [page], True, Null)
        else
          let (victimPage, rest) = shift lo;
              replaceIndex = indexOf fr victimPage
          in (assign_index fr replaceIndex (Num page), rest @ [page], True, victimPage))"

text \<open>One iteration of \<^verbatim>\<open>for (const page of pages)\<close>.\<close>

definition process_page :: "int \<Rightarrow> sim \<Rightarrow> sim" where
  "process_page page s =
     (case reference (memory s) (loadOrder s) page of
        (fr, lo, fault, replaced) \<Rightarrow>
          \<lparr> memory = fr,
            loadOrder = lo,
            totalFaults = (if fault then totalFaults s + 1 else totalFaults s),
            steps = steps s @
              [\<lparr> pageReference = page, frames = fr, isFault = fault,
                 replacedPage = replaced, frameRanks = rankMap lo \<rparr>] \<rparr>)"

text \<open>
  The variables before the loop: \<^verbatim>\<open>Array(frameCount).fill(null)\<close>, an empty queue, no
  faults, no snapshots.
\<close>

definition initial :: "nat \<Rightarrow> sim" where
  "initial frameCount =
     \<lparr> memory = replicate frameCount Null, loadOrder = [], totalFaults = 0, steps = [] \<rparr>"

definition run :: "int list \<Rightarrow> nat \<Rightarrow> sim" where
  "run pages frameCount = fold process_page pages (initial frameCount)"

text \<open>
  What the callback hands to \<^verbatim>\<open>setSimulationSteps\<close> and \<^verbatim>\<open>setPageFaults\<close>.
\<close>

definition simulate :: "int list \<Rightarrow> nat \<Rightarrow> snapshot list \<times> nat" where
  "simulate pages frameCount = (let s = run pages frameCount in (steps s, totalFaults s))"

subsection \<open>Input validation and parsing\<close>

text \<open>
  A string is a list of code units; the model covers the code units below 256, one \<open>char\<close>
  each. A number produced by \<^verbatim>\<open>parseInt\<close> is an integer or \<^verbatim>\<open>NaN\<close>, here \<open>None\<close>. The
  model keeps the exact integer value of the digits; JavaScript rounds it to a double
  (to infinity past the largest one), so two long digit strings can be one page there and
  two here. Whether the result is \<^verbatim>\<open>NaN\<close>, and its sign, are the same in both.
\<close>

type_synonym number = "int option"

definition isNaN :: "number \<Rightarrow> bool" where
  "isNaN n = (n = None)"

text \<open>The comparisons \<^verbatim>\<open>n < k\<close> and \<^verbatim>\<open>n > k\<close>: both are false when \<^verbatim>\<open>n\<close> is \<^verbatim>\<open>NaN\<close>.\<close>

definition num_less :: "number \<Rightarrow> int \<Rightarrow> bool" where
  "num_less n k = (case n of None \<Rightarrow> False | Some m \<Rightarrow> m < k)"

definition num_greater :: "number \<Rightarrow> int \<Rightarrow> bool" where
  "num_greater n k = (case n of None \<Rightarrow> False | Some m \<Rightarrow> m > k)"

text \<open>
  White space and line terminators among the code units below 256: tab, line feed,
  vertical tab, form feed, carriage return, space and no-break space.
\<close>

definition isWhiteSpace :: "char \<Rightarrow> bool" where
  "isWhiteSpace c = ((of_char c :: nat) \<in> {9, 10, 11, 12, 13, 32, 160})"

definition trim :: "string \<Rightarrow> string" where
  "trim s = rev (dropWhile isWhiteSpace (rev (dropWhile isWhiteSpace s)))"

text \<open>
  \<^verbatim>\<open>String.prototype.split\<close> with a one-character separator: the empty string gives one
  empty token, and \<open>n\<close> separators give \<open>n + 1\<close> tokens.
\<close>

fun split :: "char \<Rightarrow> string \<Rightarrow> string list" where
  "split sep [] = [[]]"
| "split sep (c # cs) =
     (if c = sep then [] # split sep cs
      else case split sep cs of
             [] \<Rightarrow> [[c]]
           | t # ts \<Rightarrow> (c # t) # ts)"

text \<open>The value of a character as a digit: 0-9, then a-z and A-Z for 10-35.\<close>

definition digitValue :: "char \<Rightarrow> nat option" where
  "digitValue c =
     (let n = (of_char c :: nat) in
      if 48 \<le> n \<and> n \<le> 57 then Some (n - 48)
      else if 97 \<le> n \<and> n \<le> 122 then Some (n - 87)
      else if 65 \<le> n \<and> n \<le> 90 then Some (n - 55)
      else None)"

definition isRadixDigit :: "nat \<Rightarrow> char \<Rightarrow> bool" where
  "isRadixDigit R c = (case digitValue c of None \<Rightarrow> False | Some d \<Rightarrow> d < R)"

definition digitsValue :: "nat \<Rightarrow> string \<Rightarrow> nat" where
  "digitsValue R Z =
     foldl (\<lambda>acc c. case digitValue c of None \<Rightarrow> acc | Some d \<Rightarrow> acc * R + d) 0 Z"

text \<open>
  \<^verbatim>\<open>parseInt(string)\<close> with no radix argument: skip leading white space, read an optional
  sign, switch to radix 16 after a prefix \<^verbatim>\<open>0x\<close> or \<^verbatim>\<open>0X\<close>, take the longest prefix of
  digits of the radix; \<^verbatim>\<open>NaN\<close> when that prefix is empty, and whatever follows the digits
  is ignored.
\<close>

definition parseInt :: "string \<Rightarrow> number" where
  "parseInt inputString =
     (let S = dropWhile isWhiteSpace inputString;
          sign = (if take 1 S = ''-'' then - 1 else 1 :: int);
          S1 = (if take 1 S = ''+'' \<or> take 1 S = ''-'' then drop 1 S else S);
          hex = (take 2 S1 = ''0x'' \<or> take 2 S1 = ''0X'');
          R = (if hex then 16 else 10 :: nat);
          S2 = (if hex then drop 2 S1 else S1);
          Z = takeWhile (isRadixDigit R) S2
      in if Z = [] then None else Some (sign * int (digitsValue R Z)))"

datatype error =
  InvalidFormat | NegativeReference | LengthOutOfRange | FrameCountOutOfRange | RangeError

text \<open>
  The first part of the callback, up to the fourth check. Each \<^verbatim>\<open>setValidationError\<close>
  followed by \<^verbatim>\<open>return\<close> is an \<open>Inl\<close>; the four messages are named as the four error
  kinds. Past the first check no element of \<^verbatim>\<open>pages\<close> is \<^verbatim>\<open>NaN\<close>, and the pages are handed
  on as integers.
\<close>

definition validate :: "string \<Rightarrow> number \<Rightarrow> error + (int list \<times> number)" where
  "validate inputRefString frameCount =
     (let pageStrings = split CHR '','' inputRefString;
          pages = map parseInt (filter (\<lambda>s. s \<noteq> []) (map trim pageStrings))
      in
      if list_ex isNaN pages \<or>
         list_ex (\<lambda>s. trim s \<noteq> [] \<and> isNaN (parseInt (trim s))) pageStrings
      then Inl InvalidFormat
      else if list_ex (\<lambda>n. num_less n 0) pages then Inl NegativeReference
      else if length pages = 0 \<or> length pages > 10 then Inl LengthOutOfRange
      else if num_less frameCount 3 \<or> num_greater frameCount 5 then Inl FrameCountOutOfRange
      else Inr (map (\<lambda>n. case n of None \<Rightarrow> 0 | Some m \<Rightarrow> m) pages, frameCount))"

text \<open>
  The whole callback. A frame count that is \<^verbatim>\<open>NaN\<close> passes the fourth check, since both
  comparisons are false, and \<^verbatim>\<open>Array(NaN)\<close> then throws a \<^verbatim>\<open>RangeError\<close>.
\<close>

definition runFIFOSimulation :: "string \<Rightarrow> number \<Rightarrow> error + (snapshot list \<times> nat)" where
  "runFIFOSimulation inputRefString frameCount =
     (case validate inputRefString frameCount of
        Inl e \<Rightarrow> Inl e
      | Inr (pages, fc) \<Rightarrow>
          (case fc of
             None \<Rightarrow> Inl RangeError
           | Some n \<Rightarrow> Inr (simulate pages (nat n))))"

subsection \<open>Notions used by the properties\<close>

text \<open>
  The precondition of the simulation engine: what the four validation rules leave.
\<close>

definition validated :: "int list \<Rightarrow> nat \<Rightarrow> bool" where
  "validated pages frameCount \<longleftrightarrow>
     list_all (\<lambda>p. 0 \<le> p) pages \<and> 1 \<le> length pages \<and> length pages \<le> 10 \<and>
     3 \<le> frameCount \<and> frameCount \<le> 5"

text \<open>
  The tokens that the checks look at: the pieces between commas, trimmed, without the
  blank ones. The callback builds \<^verbatim>\<open>pages\<close> from exactly these.
\<close>

definition tokens :: "string \<Rightarrow> string list" where
  "tokens inputRefString = filter (\<lambda>s. s \<noteq> []) (map trim (split CHR '','' inputRefString))"

text \<open>
  The validator's first two rules in the spec's own words, for comparison with what
  \<^verbatim>\<open>parseInt\<close> accepts. A token parses as an integer when it is an optional sign followed
  by decimal digits, at least one, and nothing else; its value is the number the digits
  spell, negated after a minus sign. A token is non-numeric when no decimal digit follows
  its optional sign. Tokens that start with digits and go on with something else are
  neither.
\<close>

definition isDecimalDigit :: "char \<Rightarrow> bool" where
  "isDecimalDigit c = (48 \<le> (of_char c :: nat) \<and> (of_char c :: nat) \<le> 57)"

definition strip_sign :: "string \<Rightarrow> string" where
  "strip_sign t = (if take 1 t = ''+'' \<or> take 1 t = ''-'' then drop 1 t else t)"

definition integer_token :: "string \<Rightarrow> bool" where
  "integer_token t \<longleftrightarrow> strip_sign t \<noteq> [] \<and> list_all isDecimalDigit (strip_sign t)"

definition non_numeric_token :: "string \<Rightarrow> bool" where
  "non_numeric_token t \<longleftrightarrow> (case strip_sign t of [] \<Rightarrow> True | c # cs \<Rightarrow> \<not> isDecimalDigit c)"

definition decimal_value :: "string \<Rightarrow> nat" where
  "decimal_value ds = foldl (\<lambda>acc c. acc * 10 + ((of_char c :: nat) - 48)) 0 ds"

definition integer_token_value :: "string \<Rightarrow> int" where
  "integer_token_value t =
     (if take 1 t = ''-'' then - int (decimal_value (strip_sign t))
      else int (decimal_value (strip_sign t)))"

text \<open>The non-empty entries of a frames array, in slot order.\<close>

definition resident :: "jsval list \<Rightarrow> jsval list" where
  "resident fr = filter (\<lambda>x. x \<noteq> Null) fr"

text \<open>The number of occupied slots.\<close>

definition occupied :: "jsval list \<Rightarrow> nat" where
  "occupied fr = length (resident fr)"

text \<open>
  The relation the loop keeps between the frames array and the queue: the queue has no
  duplicates, and the occupied slots hold exactly its pages, each once.
\<close>

definition queue_inv :: "jsval list \<Rightarrow> int list \<Rightarrow> bool" where
  "queue_inv fr lo \<longleftrightarrow> distinct lo \<and> mset (resident fr) = mset (map Num lo)"

section \<open>Array operations\<close>

lemma indexOf_from_absent: "v \<notin> set xs \<Longrightarrow> indexOf_from xs v i = - 1"
  by (induction xs arbitrary: i) auto

lemma indexOf_from_first:
  "v \<notin> set A \<Longrightarrow> indexOf_from (A @ v # B) v i = i + int (length A)"
  by (induction A arbitrary: i) auto

lemma indexOf_absent: "v \<notin> set xs \<Longrightarrow> indexOf xs v = - 1"
  by (simp add: indexOf_def indexOf_from_absent)

lemma indexOf_first: "v \<notin> set A \<Longrightarrow> indexOf (A @ v # B) v = int (length A)"
  by (simp add: indexOf_def indexOf_from_first)

lemma indexOf_found_iff: "indexOf xs v \<noteq> - 1 \<longleftrightarrow> v \<in> set xs"
proof
  assume "indexOf xs v \<noteq> - 1"
  then show "v \<in> set xs" using indexOf_absent by fastforce
next
  assume "v \<in> set xs"
  then obtain A B where "xs = A @ v # B" "v \<notin> set A"
    by (meson split_list_first)
  then show "indexOf xs v \<noteq> - 1" by (simp add: indexOf_first)
qed

lemma indexOf_range: "- 1 \<le> indexOf xs v \<and> indexOf xs v < int (length xs)"
proof (cases "v \<in> set xs")
  case True
  then obtain A B where "xs = A @ v # B" "v \<notin> set A"
    by (meson split_list_first)
  then show ?thesis by (simp add: indexOf_first)
next
  case False
  then show ?thesis by (simp add: indexOf_absent)
qed

lemma assign_first:
  "v \<notin> set A \<Longrightarrow> assign_index (A @ v # B) (indexOf (A @ v # B) v) w = A @ w # B"
  by (simp add: indexOf_first assign_index_def)

lemma assign_absent: "v \<notin> set xs \<Longrightarrow> assign_index xs (indexOf xs v) w = xs"
  by (simp add: indexOf_absent assign_index_def)

section \<open>The three cases of the loop body\<close>

text \<open>
  A hit leaves everything as it is; a fault with a free slot writes the page over the
  first \<^verbatim>\<open>null\<close>; a fault on a full array writes it over the front of the queue.
\<close>

lemma reference_hit:
  "Num page \<in> set fr \<Longrightarrow> reference fr lo page = (fr, lo, False, Null)"
  by (simp add: reference_def array_includes_def)

lemma reference_free:
  assumes "Num page \<notin> set fr" and "Null \<in> set fr"
  shows "\<exists>A B. fr = A @ Null # B \<and> Null \<notin> set A \<and>
           reference fr lo page = (A @ Num page # B, lo @ [page], True, Null)"
proof -
  from assms(2) obtain A B where AB: "fr = A @ Null # B" "Null \<notin> set A"
    by (meson split_list_first)
  have "indexOf fr Null \<noteq> - 1" using assms(2) by (simp add: indexOf_found_iff)
  moreover have "assign_index fr (indexOf fr Null) (Num page) = A @ Num page # B"
    using AB by (simp add: assign_first)
  ultimately have "reference fr lo page = (A @ Num page # B, lo @ [page], True, Null)"
    using assms(1) by (simp add: reference_def array_includes_def Let_def)
  with AB show ?thesis by blast
qed

text \<open>What the queue relation says about the frames array.\<close>

lemma queue_inv_set: "queue_inv fr lo \<Longrightarrow> set fr - {Null} = Num ` set lo"
proof -
  assume "queue_inv fr lo"
  then have "set (resident fr) = set (map Num lo)"
    unfolding queue_inv_def by (metis set_mset_mset)
  then show ?thesis by (auto simp: resident_def)
qed

lemma queue_inv_resident: "queue_inv fr lo \<Longrightarrow> set (resident fr) = Num ` set lo"
  unfolding queue_inv_def by (metis set_map set_mset_mset)

lemma queue_inv_mem: "queue_inv fr lo \<Longrightarrow> Num p \<in> set fr \<longleftrightarrow> p \<in> set lo"
  using queue_inv_set [of fr lo] by auto

lemma queue_inv_no_undefined: "queue_inv fr lo \<Longrightarrow> Undefined \<notin> set fr"
  using queue_inv_set [of fr lo] by auto

lemma queue_inv_length: "queue_inv fr lo \<Longrightarrow> occupied fr = length lo"
  unfolding queue_inv_def occupied_def by (metis length_map size_mset)

lemma queue_inv_distinct: "queue_inv fr lo \<Longrightarrow> distinct (resident fr)"
  unfolding queue_inv_def
  by (metis distinct_map inj_on_def jsval.inject mset_eq_imp_distinct_iff)

lemma reference_evict:
  assumes "Num page \<notin> set fr" and "Null \<notin> set fr" and "queue_inv fr lo" and "fr \<noteq> []"
  shows "\<exists>v rest A B. lo = v # rest \<and> fr = A @ Num v # B \<and> Num v \<notin> set A \<and> Num v \<notin> set B \<and>
           reference fr lo page = (A @ Num page # B, rest @ [page], True, Num v)"
proof -
  have res: "resident fr = fr" using assms(2) by (auto simp: resident_def filter_id_conv)
  have "length lo = length fr" using queue_inv_length [OF assms(3)] res by (simp add: occupied_def)
  with assms(4) obtain v rest where lo: "lo = v # rest" by (cases lo) auto
  then have "Num v \<in> set fr" using queue_inv_mem [OF assms(3)] by simp
  then obtain A B where AB: "fr = A @ Num v # B" "Num v \<notin> set A"
    by (meson split_list_first)
  have "distinct fr" using queue_inv_distinct [OF assms(3)] res by simp
  then have B: "Num v \<notin> set B" using AB(1) by auto
  have "indexOf fr Null = - 1" using assms(2) by (simp add: indexOf_absent)
  moreover have "assign_index fr (indexOf fr (Num v)) (Num page) = A @ Num page # B"
    using AB by (simp add: assign_first)
  ultimately have "reference fr lo page = (A @ Num page # B, rest @ [page], True, Num v)"
    using assms(1) lo by (simp add: reference_def array_includes_def Let_def)
  with lo AB B show ?thesis by blast
qed

text \<open>The relation holds at the start and is kept by a load and by a replacement.\<close>

lemma queue_inv_initial: "queue_inv (replicate n Null) []"
  by (simp add: queue_inv_def resident_def)

lemma queue_inv_free:
  assumes "queue_inv (A @ Null # B) lo" and "Num page \<notin> set (A @ Null # B)"
  shows "queue_inv (A @ Num page # B) (lo @ [page])"
proof -
  have "page \<notin> set lo" using queue_inv_mem [OF assms(1)] assms(2) by blast
  moreover have "mset (resident (A @ Num page # B)) = add_mset (Num page) (mset (resident (A @ Null # B)))"
    by (simp add: resident_def)
  ultimately show ?thesis using assms(1) by (simp add: queue_inv_def)
qed

lemma queue_inv_evict:
  assumes "queue_inv (A @ Num v # B) (v # rest)" and "Num page \<notin> set (A @ Num v # B)"
  shows "queue_inv (A @ Num page # B) (rest @ [page])"
proof -
  have "page \<notin> set (v # rest)" using queue_inv_mem [OF assms(1)] assms(2) by blast
  moreover have "mset (resident (A @ Num page # B)) = add_mset (Num page) (mset (resident A) + mset (resident B))"
    by (simp add: resident_def)
  moreover have "mset (resident A) + mset (resident B) = mset (map Num rest)"
    using assms(1) by (simp add: queue_inv_def resident_def)
  ultimately show ?thesis using assms(1) by (simp add: queue_inv_def)
qed

section \<open>The rank dictionary\<close>

lemma set_rank_pair: "set_rank (q, k) m = m(q \<mapsto> Suc k)"
  by (simp add: set_rank_def)

lemma rank_fold_other: "p \<notin> fst ` set ps \<Longrightarrow> fold set_rank ps m p = m p"
proof (induction ps arbitrary: m)
  case Nil
  then show ?case by simp
next
  case (Cons x xs)
  obtain q k where x: "x = (q, k)" by (cases x)
  with Cons show ?case by (simp add: set_rank_pair)
qed

lemma rank_fold_dom: "dom (fold set_rank ps m) = dom m \<union> fst ` set ps"
proof (induction ps arbitrary: m)
  case Nil
  then show ?case by simp
next
  case (Cons x xs)
  obtain q k where x: "x = (q, k)" by (cases x)
  have "dom (fold set_rank xs (m(q \<mapsto> Suc k))) = dom (m(q \<mapsto> Suc k)) \<union> fst ` set xs"
    by (rule Cons.IH)
  then show ?case using x by (simp add: set_rank_pair del: fun_upd_apply)
qed

lemma rank_fold_nth:
  "distinct (map fst ps) \<Longrightarrow> i < length ps \<Longrightarrow>
   fold set_rank ps m (fst (ps ! i)) = Some (Suc (snd (ps ! i)))"
proof (induction ps arbitrary: m i)
  case Nil
  then show ?case by simp
next
  case (Cons x xs)
  obtain q k where x: "x = (q, k)" by (cases x)
  show ?case
  proof (cases i)
    case 0
    have "q \<notin> fst ` set xs" using Cons.prems(1) x by simp
    then have "fold set_rank xs (m(q \<mapsto> Suc k)) q = Some (Suc k)"
      by (simp add: rank_fold_other)
    then show ?thesis using 0 x by (simp add: set_rank_pair)
  next
    case (Suc j)
    then have "j < length xs" and "distinct (map fst xs)" using Cons.prems by simp_all
    then have "fold set_rank xs (m(q \<mapsto> Suc k)) (fst (xs ! j)) = Some (Suc (snd (xs ! j)))"
      by (simp only: Cons.IH)
    then show ?thesis using Suc x by (simp add: set_rank_pair del: fun_upd_apply)
  qed
qed

lemma fst_set_zip_upt: "fst ` set (zip lo [0 ..< length lo]) = set lo"
proof -
  have "map fst (zip lo [0 ..< length lo]) = lo" by (simp add: map_fst_zip)
  then show ?thesis by (metis set_map)
qed

lemma dom_rankMap: "dom (rankMap lo) = set lo"
  unfolding rankMap_def rank_fold_dom fst_set_zip_upt by simp

lemma rankMap_nth:
  assumes "distinct lo" and "i < length lo"
  shows "rankMap lo (lo ! i) = Some (Suc i)"
proof -
  let ?ps = "zip lo [0 ..< length lo]"
  have "distinct (map fst ?ps)" using assms(1) by (simp add: map_fst_zip)
  moreover have "i < length ?ps" using assms(2) by simp
  moreover have "?ps ! i = (lo ! i, i)" using assms(2) by simp
  ultimately have "fold set_rank ?ps Map.empty (fst (lo ! i, i)) = Some (Suc (snd (lo ! i, i)))"
    using rank_fold_nth [of ?ps i Map.empty] by metis
  then show ?thesis unfolding rankMap_def by simp
qed

lemma rankMap_front: "distinct (v # rest) \<Longrightarrow> rankMap (v # rest) v = Some 1"
  using rankMap_nth [of "v # rest" 0] by simp

section \<open>The loop\<close>

text \<open>The fields of the state after one iteration.\<close>

lemma memory_process: "memory (process_page page s) = fst (reference (memory s) (loadOrder s) page)"
  by (simp add: process_page_def split: prod.splits)

lemma loadOrder_process:
  "loadOrder (process_page page s) = fst (snd (reference (memory s) (loadOrder s) page))"
  by (simp add: process_page_def split: prod.splits)

lemma totalFaults_process:
  "totalFaults (process_page page s) =
     totalFaults s + (if fst (snd (snd (reference (memory s) (loadOrder s) page))) then 1 else 0)"
  by (simp add: process_page_def split: prod.splits)

lemma steps_process:
  "steps (process_page page s) = steps s @
     [\<lparr> pageReference = page,
        frames = memory (process_page page s),
        isFault = fst (snd (snd (reference (memory s) (loadOrder s) page))),
        replacedPage = snd (snd (snd (reference (memory s) (loadOrder s) page))),
        frameRanks = rankMap (loadOrder (process_page page s)) \<rparr>]"
  by (simp add: process_page_def split: prod.splits)

text \<open>The loop over a list with one more page, and over a prefix of the pages.\<close>

lemma run_snoc: "run (xs @ [x]) n = process_page x (run xs n)"
  by (simp add: run_def)

lemma run_Nil: "run [] n = initial n"
  by (simp add: run_def)

lemma run_take_Suc:
  "i < length pages \<Longrightarrow> run (take (Suc i) pages) n = process_page (pages ! i) (run (take i pages) n)"
  by (simp add: take_Suc_conv_app_nth run_snoc)

lemma length_steps_run: "length (steps (run pages n)) = length pages"
  by (induction pages rule: rev_induct) (simp_all add: run_Nil initial_def run_snoc steps_process)

lemma steps_run_append: "\<exists>zs. steps (run (xs @ ys) n) = steps (run xs n) @ zs"
proof (induction ys rule: rev_induct)
  case Nil
  then show ?case by simp
next
  case (snoc y ys)
  then obtain zs where "steps (run (xs @ ys) n) = steps (run xs n) @ zs" by blast
  then show ?case using run_snoc [of "xs @ ys" y n] by (simp add: steps_process)
qed

lemma steps_run_nth:
  assumes "i < length pages"
  shows "steps (run pages n) ! i = last (steps (run (take (Suc i) pages) n))"
proof -
  obtain zs where "steps (run (take (Suc i) pages @ drop (Suc i) pages) n) = steps (run (take (Suc i) pages) n) @ zs"
    using steps_run_append by blast
  then have e: "steps (run pages n) = steps (run (take (Suc i) pages) n) @ zs" by simp
  have l: "length (steps (run (take (Suc i) pages) n)) = Suc i"
    using assms by (simp add: length_steps_run)
  then have "steps (run pages n) ! i = steps (run (take (Suc i) pages) n) ! i"
    using e by (simp add: nth_append)
  also have "\<dots> = last (steps (run (take (Suc i) pages) n))"
    using l by (metis diff_Suc_1 last_conv_nth length_0_conv nat.distinct(1))
  finally show ?thesis .
qed

text \<open>
  The snapshot at index \<open>i\<close> is made by the iteration that starts in the state reached on
  the first \<open>i\<close> pages.
\<close>

lemma snapshot_nth:
  assumes "i < length pages"
  shows "steps (run pages n) ! i =
     \<lparr> pageReference = pages ! i,
       frames = memory (run (take (Suc i) pages) n),
       isFault = fst (snd (snd (reference (memory (run (take i pages) n)) (loadOrder (run (take i pages) n)) (pages ! i)))),
       replacedPage = snd (snd (snd (reference (memory (run (take i pages) n)) (loadOrder (run (take i pages) n)) (pages ! i)))),
       frameRanks = rankMap (loadOrder (run (take (Suc i) pages) n)) \<rparr>"
  using assms by (simp add: steps_run_nth run_take_Suc steps_process)

text \<open>The frames array keeps its length, and the queue relation holds all along.\<close>

lemma length_memory_reference: "length (fst (reference fr lo page)) = length fr"
  by (simp add: reference_def assign_index_def Let_def split: prod.splits)

lemma length_memory_run: "length (memory (run pages n)) = n"
  by (induction pages rule: rev_induct)
     (simp_all add: run_Nil initial_def run_snoc memory_process length_memory_reference)

lemma queue_inv_reference:
  assumes "queue_inv fr lo" and ne: "fr \<noteq> []"
  shows "queue_inv (fst (reference fr lo page)) (fst (snd (reference fr lo page)))"
proof (cases "Num page \<in> set fr")
  case True
  then show ?thesis using assms by (simp add: reference_hit)
next
  case miss: False
  show ?thesis
  proof (cases "Null \<in> set fr")
    case True
    from reference_free [OF miss True, of lo] obtain A B where
      "fr = A @ Null # B" "reference fr lo page = (A @ Num page # B, lo @ [page], True, Null)"
      by blast
    then show ?thesis using assms miss queue_inv_free by simp
  next
    case full: False
    from reference_evict [OF miss full assms] obtain v rest A B where
      "lo = v # rest" "fr = A @ Num v # B"
      "reference fr lo page = (A @ Num page # B, rest @ [page], True, Num v)"
      by blast
    then show ?thesis using assms miss queue_inv_evict by simp
  qed
qed

lemma queue_inv_run: "0 < n \<Longrightarrow> queue_inv (memory (run pages n)) (loadOrder (run pages n))"
proof (induction pages rule: rev_induct)
  case Nil
  then show ?case by (simp add: run_Nil initial_def queue_inv_initial)
next
  case (snoc x xs)
  have "memory (run xs n) \<noteq> []" using snoc.prems length_memory_run [of xs n] by auto
  with snoc show ?case by (simp add: run_snoc memory_process loadOrder_process queue_inv_reference)
qed

section \<open>The trace\<close>

lemma fst_simulate: "fst (simulate pages n) = steps (run pages n)"
  by (simp add: simulate_def Let_def)

lemma snd_simulate: "snd (simulate pages n) = totalFaults (run pages n)"
  by (simp add: simulate_def Let_def)

lemma length_trace: "length (fst (simulate pages n)) = length pages"
  by (simp add: fst_simulate length_steps_run)

lemma validated_frames: "validated pages n \<Longrightarrow> 0 < n"
  by (simp add: validated_def)

lemma memory_run_nonempty: "0 < n \<Longrightarrow> memory (run pages n) \<noteq> []"
  using length_memory_run [of pages n] by auto

lemma pageReference_run: "map pageReference (steps (run pages n)) = pages"
  by (induction pages rule: rev_induct) (simp_all add: run_Nil initial_def run_snoc steps_process)

lemma totalFaults_run: "totalFaults (run pages n) = length (filter isFault (steps (run pages n)))"
  by (induction pages rule: rev_induct)
     (simp_all add: run_Nil initial_def run_snoc steps_process totalFaults_process)

text \<open>The fields of the snapshot at index \<open>i\<close>.\<close>

lemma trace_pageReference:
  "i < length pages \<Longrightarrow> pageReference (fst (simulate pages n) ! i) = pages ! i"
  by (simp add: fst_simulate snapshot_nth)

lemma trace_frames:
  "i < length pages \<Longrightarrow> frames (fst (simulate pages n) ! i) = memory (run (take (Suc i) pages) n)"
  by (simp add: fst_simulate snapshot_nth)

lemma trace_frameRanks:
  "i < length pages \<Longrightarrow>
   frameRanks (fst (simulate pages n) ! i) = rankMap (loadOrder (run (take (Suc i) pages) n))"
  by (simp add: fst_simulate snapshot_nth)

lemma trace_isFault:
  "i < length pages \<Longrightarrow>
   isFault (fst (simulate pages n) ! i) =
     fst (snd (snd (reference (memory (run (take i pages) n)) (loadOrder (run (take i pages) n)) (pages ! i))))"
  by (simp add: fst_simulate snapshot_nth)

lemma trace_replacedPage:
  "i < length pages \<Longrightarrow>
   replacedPage (fst (simulate pages n) ! i) =
     snd (snd (snd (reference (memory (run (take i pages) n)) (loadOrder (run (take i pages) n)) (pages ! i))))"
  by (simp add: fst_simulate snapshot_nth)

lemma memory_step:
  "i < length pages \<Longrightarrow>
   memory (run (take (Suc i) pages) n) =
     fst (reference (memory (run (take i pages) n)) (loadOrder (run (take i pages) n)) (pages ! i))"
  by (simp add: run_take_Suc memory_process)

lemma loadOrder_step:
  "i < length pages \<Longrightarrow>
   loadOrder (run (take (Suc i) pages) n) =
     fst (snd (reference (memory (run (take i pages) n)) (loadOrder (run (take i pages) n)) (pages ! i)))"
  by (simp add: run_take_Suc loadOrder_process)

text \<open>A replaced page comes from a fault on a full array and is the front of the queue.\<close>

lemma reference_replaced:
  assumes "queue_inv fr lo" and "fr \<noteq> []"
    and "snd (snd (snd (reference fr lo page))) \<noteq> Null"
  shows "\<exists>v rest. lo = v # rest \<and> Num page \<notin> set fr \<and> Null \<notin> set fr \<and> Num v \<in> set fr \<and>
           snd (snd (reference fr lo page)) = (True, Num v)"
proof (cases "Num page \<in> set fr")
  case True
  then show ?thesis using assms(3) by (simp add: reference_hit)
next
  case miss: False
  show ?thesis
  proof (cases "Null \<in> set fr")
    case True
    from reference_free [OF miss True, of lo] show ?thesis using assms(3) by auto
  next
    case full: False
    from reference_evict [OF miss full assms(1,2)] show ?thesis using miss full by auto
  qed
qed

text \<open>One iteration occupies at most one more slot and frees none.\<close>

lemma occupied_reference:
  assumes "queue_inv fr lo" and "fr \<noteq> []"
  shows "occupied fr \<le> occupied (fst (reference fr lo page)) \<and>
         occupied (fst (reference fr lo page)) \<le> occupied fr + 1"
proof (cases "Num page \<in> set fr")
  case True
  then show ?thesis by (simp add: reference_hit)
next
  case miss: False
  show ?thesis
  proof (cases "Null \<in> set fr")
    case True
    from reference_free [OF miss True, of lo] show ?thesis
      by (auto simp: occupied_def resident_def)
  next
    case full: False
    from reference_evict [OF miss full assms] show ?thesis
      by (auto simp: occupied_def resident_def)
  qed
qed

lemma occupied_le_length: "occupied fr \<le> length fr"
  by (simp add: occupied_def resident_def)

lemma card_resident:
  assumes "queue_inv fr lo"
  shows "card (set (resident fr)) = occupied fr \<and> card (set lo) = occupied fr"
proof -
  have "distinct (resident fr)" using assms by (rule queue_inv_distinct)
  then have "card (set (resident fr)) = occupied fr" by (simp add: occupied_def distinct_card)
  moreover have "card (set lo) = length lo" using assms by (simp add: queue_inv_def distinct_card)
  ultimately show ?thesis using queue_inv_length [OF assms] by simp
qed

lemma occupied_step:
  assumes "0 < n" and "i < length pages"
  shows "occupied (memory (run (take i pages) n)) \<le> occupied (memory (run (take (Suc i) pages) n)) \<and>
         occupied (memory (run (take (Suc i) pages) n)) \<le> occupied (memory (run (take i pages) n)) + 1"
proof -
  let ?s = "run (take i pages) n"
  have inv: "queue_inv (memory ?s) (loadOrder ?s)" using assms(1) by (rule queue_inv_run)
  have ne: "memory ?s \<noteq> []" using assms(1) by (rule memory_run_nonempty)
  show ?thesis using occupied_reference [OF inv ne, of "pages ! i"] assms(2)
    by (simp add: memory_step)
qed

lemma occupied_mono:
  assumes "0 < n" and "j \<le> length pages" and "i \<le> j"
  shows "occupied (memory (run (take i pages) n)) \<le> occupied (memory (run (take j pages) n))"
  using assms(3,2)
proof (induction j rule: dec_induct)
  case base
  then show ?case by simp
next
  case (step k)
  then have "k < length pages" by simp
  from occupied_step [OF assms(1) this] step show ?case by simp
qed

section \<open>Validation\<close>

text \<open>
  The two halves of the first check say the same thing about the tokens, so the four
  checks read as a chain of conditions on \<open>tokens\<close> and the frame count.
\<close>

lemma blank_check:
  "list_ex (\<lambda>s. trim s \<noteq> [] \<and> isNaN (parseInt (trim s))) (split CHR '','' raw) \<longleftrightarrow>
   (\<exists>t \<in> set (tokens raw). parseInt t = None)"
  by (auto simp: list_ex_iff tokens_def isNaN_def)

lemma nan_check:
  "list_ex isNaN (map parseInt (tokens raw)) \<longleftrightarrow> (\<exists>t \<in> set (tokens raw). parseInt t = None)"
  unfolding list_ex_iff isNaN_def by force

lemma negative_check:
  "list_ex (\<lambda>n. num_less n 0) (map parseInt (tokens raw)) \<longleftrightarrow>
   (\<exists>t \<in> set (tokens raw). num_less (parseInt t) 0)"
  by (auto simp: list_ex_iff)

lemma validate_chain:
  "validate raw fc =
     (if \<exists>t \<in> set (tokens raw). parseInt t = None then Inl InvalidFormat
      else if \<exists>t \<in> set (tokens raw). num_less (parseInt t) 0 then Inl NegativeReference
      else if tokens raw = [] \<or> length (tokens raw) > 10 then Inl LengthOutOfRange
      else if num_less fc 3 \<or> num_greater fc 5 then Inl FrameCountOutOfRange
      else Inr (map (\<lambda>n. case n of None \<Rightarrow> 0 | Some m \<Rightarrow> m) (map parseInt (tokens raw)), fc))"
  unfolding validate_def Let_def tokens_def [symmetric] blank_check nan_check negative_check
  by auto

lemma validate_InvalidFormat_iff:
  "validate raw fc = Inl InvalidFormat \<longleftrightarrow> (\<exists>t \<in> set (tokens raw). parseInt t = None)"
  by (simp add: validate_chain)

lemma validate_NegativeReference_iff:
  "validate raw fc = Inl NegativeReference \<longleftrightarrow>
     (\<forall>t \<in> set (tokens raw). parseInt t \<noteq> None) \<and>
     (\<exists>t \<in> set (tokens raw). num_less (parseInt t) 0)"
  by (simp add: validate_chain)

lemma validate_LengthOutOfRange_iff:
  "validate raw fc = Inl LengthOutOfRange \<longleftrightarrow>
     (\<forall>t \<in> set (tokens raw). parseInt t \<noteq> None \<and> \<not> num_less (parseInt t) 0) \<and>
     (length (tokens raw) = 0 \<or> length (tokens raw) > 10)"
  by (auto simp: validate_chain)

lemma validate_FrameCountOutOfRange_iff:
  "validate raw fc = Inl FrameCountOutOfRange \<longleftrightarrow>
     (\<forall>t \<in> set (tokens raw). parseInt t \<noteq> None \<and> \<not> num_less (parseInt t) 0) \<and>
     1 \<le> length (tokens raw) \<and> length (tokens raw) \<le> 10 \<and>
     (num_less fc 3 \<or> num_greater fc 5)"
  by (cases "tokens raw") (auto simp: validate_chain)

lemma validate_LengthOutOfRange_any:
  "validate raw fc = Inl LengthOutOfRange \<Longrightarrow> validate raw fc' = Inl LengthOutOfRange"
  by (simp add: validate_LengthOutOfRange_iff)

lemma validate_Inr_iff:
  "validate raw fc = Inr (pages, fc') \<longleftrightarrow>
     (\<forall>t \<in> set (tokens raw). parseInt t \<noteq> None \<and> \<not> num_less (parseInt t) 0) \<and>
     1 \<le> length (tokens raw) \<and> length (tokens raw) \<le> 10 \<and>
     \<not> num_less fc 3 \<and> \<not> num_greater fc 5 \<and> fc' = fc \<and>
     pages = map (\<lambda>t. case parseInt t of None \<Rightarrow> 0 | Some m \<Rightarrow> m) (tokens raw)"
  by (cases "tokens raw") (auto simp: validate_chain comp_def)

text \<open>
  What passes validation is a list of one to ten non-negative pages; a frame count that
  is a number lies between 3 and 5, so a completed run is a run of \<open>simulate\<close> on
  validated input.
\<close>

lemma validate_validated:
  assumes "validate raw fc = Inr (pages, fc')"
  shows "fc' = fc \<and> list_all (\<lambda>p. 0 \<le> p) pages \<and> 1 \<le> length pages \<and> length pages \<le> 10 \<and>
         \<not> num_less fc 3 \<and> \<not> num_greater fc 5"
proof -
  from assms have
    ok: "\<forall>t \<in> set (tokens raw). parseInt t \<noteq> None \<and> \<not> num_less (parseInt t) 0" and
    len: "1 \<le> length (tokens raw)" "length (tokens raw) \<le> 10" and
    fc: "\<not> num_less fc 3" "\<not> num_greater fc 5" "fc' = fc" and
    pages: "pages = map (\<lambda>t. case parseInt t of None \<Rightarrow> 0 | Some m \<Rightarrow> m) (tokens raw)"
    by (simp_all add: validate_Inr_iff)
  have "list_all (\<lambda>p. 0 \<le> p) pages"
    using ok unfolding pages by (auto simp: list_all_iff num_less_def split: option.splits)
  then show ?thesis using len fc by (simp add: pages)
qed

lemma run_validated:
  "runFIFOSimulation raw (Some n) = Inr r \<Longrightarrow>
   \<exists>pages. validated pages (nat n) \<and> r = simulate pages (nat n)"
  unfolding runFIFOSimulation_def
  by (auto simp: validated_def num_less_def num_greater_def dest!: validate_validated
      split: sum.splits prod.splits option.splits)

text \<open>
  \<^verbatim>\<open>parseInt\<close> on the two kinds of token: it reads an integer token as its value, and it
  gives \<^verbatim>\<open>NaN\<close> on a non-numeric token that does not start with white space. A trimmed
  token never starts with white space.
\<close>

lemma digit_not_space: "isDecimalDigit c \<Longrightarrow> \<not> isWhiteSpace c"
  by (auto simp: isDecimalDigit_def isWhiteSpace_def)

lemma radix10_digit: "isRadixDigit 10 c \<longleftrightarrow> isDecimalDigit c"
  by (auto simp: isRadixDigit_def digitValue_def isDecimalDigit_def Let_def split: option.splits if_splits)

lemma digitValue_decimal: "isDecimalDigit c \<Longrightarrow> digitValue c = Some ((of_char c :: nat) - 48)"
  by (simp add: digitValue_def isDecimalDigit_def Let_def)

lemma digits_fold:
  "list_all isDecimalDigit ds \<Longrightarrow>
   foldl (\<lambda>acc c. case digitValue c of None \<Rightarrow> acc | Some d \<Rightarrow> acc * 10 + d) a ds =
   foldl (\<lambda>acc c. acc * 10 + ((of_char c :: nat) - 48)) a ds"
  by (induction ds arbitrary: a) (simp_all add: digitValue_decimal)

lemma digitsValue_decimal: "list_all isDecimalDigit ds \<Longrightarrow> digitsValue 10 ds = decimal_value ds"
  by (simp add: digitsValue_def decimal_value_def digits_fold)

lemma sign_not_space: "\<not> isWhiteSpace CHR ''+''" "\<not> isWhiteSpace CHR ''-''"
  by (simp_all add: isWhiteSpace_def)

lemma x_not_digit: "\<not> isDecimalDigit CHR ''x''" "\<not> isDecimalDigit CHR ''X''"
  by (simp_all add: isDecimalDigit_def)

lemma zero_digit: "isDecimalDigit CHR ''0''"
  by (simp add: isDecimalDigit_def)

lemma no_hex_prefix_digits:
  "list_all isDecimalDigit ds \<Longrightarrow> take 2 ds \<noteq> ''0x'' \<and> take 2 ds \<noteq> ''0X''"
proof (cases ds)
  case Nil
  then show ?thesis by simp
next
  case (Cons a as)
  assume d: "list_all isDecimalDigit ds"
  show ?thesis
  proof (cases as)
    case Nil
    with Cons show ?thesis by simp
  next
    case (Cons b bs)
    with \<open>ds = a # as\<close> d have "isDecimalDigit b" by simp
    then have "b \<noteq> CHR ''x''" "b \<noteq> CHR ''X''" using x_not_digit by auto
    with Cons \<open>ds = a # as\<close> show ?thesis by simp
  qed
qed

lemma no_hex_prefix_nondigit:
  "(case S of [] \<Rightarrow> True | c # cs \<Rightarrow> \<not> isDecimalDigit c) \<Longrightarrow> take 2 S \<noteq> ''0x'' \<and> take 2 S \<noteq> ''0X''"
  using zero_digit by (cases S) (auto simp: take_Suc_Cons numeral_2_eq_2)

lemma parseInt_unfold:
  assumes "t \<noteq> []" and "\<not> isWhiteSpace (hd t)"
    and "take 2 (strip_sign t) \<noteq> ''0x'' \<and> take 2 (strip_sign t) \<noteq> ''0X''"
  shows "parseInt t =
     (if takeWhile (isRadixDigit 10) (strip_sign t) = [] then None
      else Some ((if take 1 t = ''-'' then - 1 else 1) *
                 int (digitsValue 10 (takeWhile (isRadixDigit 10) (strip_sign t)))))"
proof -
  have "dropWhile isWhiteSpace t = t" using assms(1,2) by (cases t) auto
  then show ?thesis using assms(3) by (simp add: parseInt_def strip_sign_def Let_def)
qed

lemma integer_token_head:
  assumes "integer_token t"
  shows "t \<noteq> [] \<and> \<not> isWhiteSpace (hd t)"
proof (cases t)
  case Nil
  with assms show ?thesis by (simp add: integer_token_def strip_sign_def)
next
  case (Cons c cs)
  show ?thesis
  proof (cases "c = CHR ''+'' \<or> c = CHR ''-''")
    case True
    then show ?thesis using Cons sign_not_space by auto
  next
    case False
    then have "strip_sign t = t" using Cons by (simp add: strip_sign_def)
    then have "isDecimalDigit c" using assms Cons by (simp add: integer_token_def)
    then show ?thesis using Cons digit_not_space by simp
  qed
qed

lemma parseInt_integer_token:
  assumes "integer_token t"
  shows "parseInt t = Some (integer_token_value t)"
proof -
  let ?ds = "strip_sign t"
  have ds: "?ds \<noteq> []" "list_all isDecimalDigit ?ds" using assms by (simp_all add: integer_token_def)
  have all: "takeWhile (isRadixDigit 10) ?ds = ?ds"
    using ds(2) by (simp add: takeWhile_eq_all_conv radix10_digit list_all_iff)
  have hd: "t \<noteq> []" "\<not> isWhiteSpace (hd t)" using integer_token_head [OF assms] by simp_all
  have "parseInt t = Some ((if take 1 t = ''-'' then - 1 else 1) * int (digitsValue 10 ?ds))"
    using parseInt_unfold [OF hd no_hex_prefix_digits [OF ds(2)]] all ds(1) by simp
  then show ?thesis using ds(2) by (simp add: integer_token_value_def digitsValue_decimal)
qed

lemma parseInt_non_numeric:
  assumes "t \<noteq> []" and "\<not> isWhiteSpace (hd t)" and "non_numeric_token t"
  shows "parseInt t = None"
proof -
  have c: "case strip_sign t of [] \<Rightarrow> True | c # cs \<Rightarrow> \<not> isDecimalDigit c"
    using assms(3) by (simp add: non_numeric_token_def)
  then have "takeWhile (isRadixDigit 10) (strip_sign t) = []"
    by (cases "strip_sign t") (simp_all add: radix10_digit)
  then show ?thesis using parseInt_unfold [OF assms(1,2) no_hex_prefix_nondigit [OF c]] by simp
qed

lemma trim_head: "trim s \<noteq> [] \<Longrightarrow> \<not> isWhiteSpace (hd (trim s))"
proof -
  let ?u = "dropWhile isWhiteSpace s"
  let ?k = "length (takeWhile isWhiteSpace (rev ?u))"
  assume ne: "trim s \<noteq> []"
  have "trim s = rev (drop ?k (rev ?u))" by (simp add: trim_def dropWhile_eq_drop)
  also have "\<dots> = take (length ?u - ?k) ?u" by (simp add: drop_rev)
  finally have t: "trim s = take (length ?u - ?k) ?u" .
  with ne have u: "?u \<noteq> []" and m: "0 < length ?u - ?k" by auto
  then have "hd (trim s) = hd ?u" using t by (simp add: hd_take)
  then show ?thesis using u hd_dropWhile by metis
qed

lemma tokens_trimmed: "t \<in> set (tokens raw) \<Longrightarrow> t \<noteq> [] \<and> \<not> isWhiteSpace (hd t)"
  using trim_head by (auto simp: tokens_def)

lemma token_readable:
  assumes "list_all (\<lambda>t. integer_token t \<or> non_numeric_token t) (tokens raw)"
    and "t \<in> set (tokens raw)"
  shows "parseInt t = None \<longleftrightarrow> \<not> integer_token t"
proof
  assume "parseInt t = None"
  then show "\<not> integer_token t" using parseInt_integer_token [of t] by auto
next
  assume "\<not> integer_token t"
  then have "non_numeric_token t" using assms by (auto simp: list_all_iff)
  then show "parseInt t = None"
    using tokens_trimmed [OF assms(2)] by (simp add: parseInt_non_numeric)
qed

lemma token_negative: "integer_token t \<Longrightarrow> num_less (parseInt t) 0 \<longleftrightarrow> integer_token_value t < 0"
  by (simp add: parseInt_integer_token num_less_def)

lemma non_numeric_InvalidFormat:
  assumes "s \<in> set (split CHR '','' raw)" and "trim s \<noteq> []" and "non_numeric_token (trim s)"
  shows "validate raw fc = Inl InvalidFormat"
proof -
  have t: "trim s \<in> set (tokens raw)" using assms(1,2) by (simp add: tokens_def)
  have "parseInt (trim s) = None"
    using tokens_trimmed [OF t] assms(3) by (simp add: parseInt_non_numeric)
  with t show ?thesis unfolding validate_InvalidFormat_iff by blast
qed

text \<open>
  Three inputs that show what the checks accept. \<^verbatim>\<open>parseInt\<close> reads a prefix, so a token
  with digits followed by other characters passes as the number its digits spell; an
  input of blank tokens only fails at the length check; a frame count that is \<^verbatim>\<open>NaN\<close>
  passes all four checks, and the array allocation fails.
\<close>

lemma validate_prefix_example:
  "validate ''12abc, 0x1F ,7.5'' (Some 3) = Inr ([12, 31, 7], Some 3)"
  by code_simp

lemma validate_blank_example: "validate '' , '' (Some 3) = Inl LengthOutOfRange"
  by code_simp

lemma runFIFOSimulation_NaN_example: "runFIFOSimulation ''1,2,3'' None = Inl RangeError"
proof -
  have "validate ''1,2,3'' None = Inr ([1, 2, 3], None)" by code_simp
  then show ?thesis by (simp add: runFIFOSimulation_def)
qed

section \<open>Properties of the simulator\<close>

text \<open>
  Claim C1. For validated pages and frame count, whenever the snapshot at index \<open>i\<close> has a
  replaced page, this is not the first step, the replaced page is the front of the queue
  as it stood before step \<open>i\<close> (the state reached on the first \<open>i\<close> pages), and the previous
  snapshot gives that page rank 1.
\<close>

theorem C1_fifo_eviction:
  assumes "validated pages frameCount" and "i < length pages"
    and "replacedPage (fst (simulate pages frameCount) ! i) \<noteq> Null"
  shows "0 < i \<and>
         (\<exists>v rest. loadOrder (run (take i pages) frameCount) = v # rest \<and>
            replacedPage (fst (simulate pages frameCount) ! i) = Num v \<and>
            frameRanks (fst (simulate pages frameCount) ! (i - 1)) v = Some 1)"
proof -
  let ?s = "run (take i pages) frameCount"
  have pos: "0 < frameCount" using assms(1) by (rule validated_frames)
  have inv: "queue_inv (memory ?s) (loadOrder ?s)" using pos by (rule queue_inv_run)
  have ne: "memory ?s \<noteq> []" using pos by (rule memory_run_nonempty)
  have "snd (snd (snd (reference (memory ?s) (loadOrder ?s) (pages ! i)))) \<noteq> Null"
    using assms(2,3) by (simp add: trace_replacedPage)
  from reference_replaced [OF inv ne this] obtain v rest where
    v: "loadOrder ?s = v # rest"
       "snd (snd (reference (memory ?s) (loadOrder ?s) (pages ! i))) = (True, Num v)"
    by blast
  have rp: "replacedPage (fst (simulate pages frameCount) ! i) = Num v"
    using assms(2) v(2) by (simp add: trace_replacedPage)
  have i0: "0 < i"
  proof (rule ccontr)
    assume "\<not> 0 < i"
    then have "loadOrder ?s = []" by (simp add: run_Nil initial_def)
    with v(1) show False by simp
  qed
  then obtain j where j: "i = Suc j" by (cases i) auto
  have "j < length pages" using assms(2) j by simp
  then have "frameRanks (fst (simulate pages frameCount) ! j) = rankMap (v # rest)"
    using v(1) j by (simp add: trace_frameRanks)
  moreover have "distinct (v # rest)" using inv v(1) by (simp add: queue_inv_def)
  ultimately have "frameRanks (fst (simulate pages frameCount) ! (i - 1)) v = Some 1"
    using j by (simp add: rankMap_front)
  with i0 v(1) rp show ?thesis by blast
qed

theorem C1_fifo_eviction_witness:
  "validated [1, 9, 3, 5] 3 \<and> (3 :: nat) < length [1, 9, 3, 5 :: int] \<and>
   replacedPage (fst (simulate [1, 9, 3, 5] 3) ! 3) \<noteq> Null \<and>
   (0 :: nat) < 3 \<and>
   (\<exists>v rest. loadOrder (run (take 3 [1, 9, 3, 5]) 3) = v # rest \<and>
      replacedPage (fst (simulate [1, 9, 3, 5] 3) ! 3) = Num v \<and>
      frameRanks (fst (simulate [1, 9, 3, 5] 3) ! (3 - 1)) v = Some 1)"
proof -
  have h1: "validated [1, 9, 3, 5] 3" by (simp add: validated_def)
  have h2: "(3 :: nat) < length [1, 9, 3, 5 :: int]" by simp
  have h3: "replacedPage (fst (simulate [1, 9, 3, 5] 3) ! 3) \<noteq> Null" by code_simp
  show ?thesis using h1 h2 h3 C1_fifo_eviction [OF h1 h2 h3] by blast
qed

text \<open>
  Claim C2. For validated pages and frame count, the trace has one snapshot per page
  reference, the snapshot at index \<open>i\<close> records the page \<open>pages ! i\<close>, and the fault total
  is the number of snapshots whose \<open>isFault\<close> is true.
\<close>

theorem C2_trace_shape:
  assumes "validated pages frameCount"
  shows "length (fst (simulate pages frameCount)) = length pages \<and>
         (\<forall>i < length pages. pageReference (fst (simulate pages frameCount) ! i) = pages ! i) \<and>
         snd (simulate pages frameCount) = length (filter isFault (fst (simulate pages frameCount)))"
proof -
  have "snd (simulate pages frameCount) = length (filter isFault (fst (simulate pages frameCount)))"
    by (simp add: fst_simulate snd_simulate totalFaults_run)
  then show ?thesis by (simp add: length_trace trace_pageReference)
qed

theorem C2_trace_shape_witness:
  "validated [7, 0, 7] 3 \<and>
   length (fst (simulate [7, 0, 7] 3)) = 3 \<and>
   pageReference (fst (simulate [7, 0, 7] 3) ! 1) = 0 \<and>
   snd (simulate [7, 0, 7] 3) = length (filter isFault (fst (simulate [7, 0, 7] 3)))"
proof -
  have v: "validated [7, 0, 7] 3" by (simp add: validated_def)
  show ?thesis using v C2_trace_shape [OF v] by simp
qed

text \<open>
  Claim C3, as amended. On the pages 1, 9, 3, 5, 6, 3, 2, 6 with 3 frames the references
  1, 9, 3, 5, 6 fault (the slots fill with 1, 9, 3, then 5 replaces 1 and 6 replaces 9),
  the second 3 is a hit, 2 faults and replaces 3, the second 6 is a hit, and there are 6
  faults in total.
\<close>

theorem C3_scenario_amended:
  "map pageReference (fst (simulate [1, 9, 3, 5, 6, 3, 2, 6] 3)) = [1, 9, 3, 5, 6, 3, 2, 6] \<and>
   map isFault (fst (simulate [1, 9, 3, 5, 6, 3, 2, 6] 3)) =
     [True, True, True, True, True, False, True, False] \<and>
   map replacedPage (fst (simulate [1, 9, 3, 5, 6, 3, 2, 6] 3)) =
     [Null, Null, Null, Num 1, Num 9, Null, Num 3, Null] \<and>
   map frames (fst (simulate [1, 9, 3, 5, 6, 3, 2, 6] 3)) =
     [[Num 1, Null, Null], [Num 1, Num 9, Null], [Num 1, Num 9, Num 3],
      [Num 5, Num 9, Num 3], [Num 5, Num 6, Num 3], [Num 5, Num 6, Num 3],
      [Num 5, Num 6, Num 2], [Num 5, Num 6, Num 2]] \<and>
   snd (simulate [1, 9, 3, 5, 6, 3, 2, 6] 3) = 6"
proof -
  have a: "map pageReference (fst (simulate [1, 9, 3, 5, 6, 3, 2, 6] 3)) = [1, 9, 3, 5, 6, 3, 2, 6]"
    by code_simp
  have b: "map isFault (fst (simulate [1, 9, 3, 5, 6, 3, 2, 6] 3)) =
     [True, True, True, True, True, False, True, False]"
    by code_simp
  have c: "map replacedPage (fst (simulate [1, 9, 3, 5, 6, 3, 2, 6] 3)) =
     [Null, Null, Null, Num 1, Num 9, Null, Num 3, Null]"
    by code_simp
  have d: "map frames (fst (simulate [1, 9, 3, 5, 6, 3, 2, 6] 3)) =
     [[Num 1, Null, Null], [Num 1, Num 9, Null], [Num 1, Num 9, Num 3],
      [Num 5, Num 9, Num 3], [Num 5, Num 6, Num 3], [Num 5, Num 6, Num 3],
      [Num 5, Num 6, Num 2], [Num 5, Num 6, Num 2]]"
    by code_simp
  have e: "snd (simulate [1, 9, 3, 5, 6, 3, 2, 6] 3) = 6"
    by code_simp
  show ?thesis by (rule conjI [OF a conjI [OF b conjI [OF c conjI [OF d e]]]])
qed

text \<open>
  Claim C3 as stated has the reference to 2 replace page 5. The queue at that point is
  3, 5, 6, and the page replaced is 3.
\<close>

theorem C3_counterexample:
  "pageReference (fst (simulate [1, 9, 3, 5, 6, 3, 2, 6] 3) ! 6) = 2 \<and>
   replacedPage (fst (simulate [1, 9, 3, 5, 6, 3, 2, 6] 3) ! 6) \<noteq> Num 5"
  by code_simp

text \<open>
  Claim C4. For validated pages and frame count and every snapshot: the non-empty entries
  of its frames array are exactly the keys of its rank dictionary; both sets have as many
  elements as there are occupied slots, which is at most the frame count; the first
  snapshot has at most one occupied slot, and each later one has as many as the one
  before or one more; once a snapshot has all frames occupied, every later one has too.
\<close>

theorem C4_occupancy:
  assumes "validated pages frameCount" and "i < length pages"
  shows "set (resident (frames (fst (simulate pages frameCount) ! i))) =
           Num ` dom (frameRanks (fst (simulate pages frameCount) ! i)) \<and>
         card (set (resident (frames (fst (simulate pages frameCount) ! i)))) =
           occupied (frames (fst (simulate pages frameCount) ! i)) \<and>
         card (dom (frameRanks (fst (simulate pages frameCount) ! i))) =
           occupied (frames (fst (simulate pages frameCount) ! i)) \<and>
         occupied (frames (fst (simulate pages frameCount) ! i)) \<le> frameCount \<and>
         length (frames (fst (simulate pages frameCount) ! i)) = frameCount \<and>
         (i = 0 \<longrightarrow> occupied (frames (fst (simulate pages frameCount) ! i)) \<le> 1) \<and>
         (0 < i \<longrightarrow>
            occupied (frames (fst (simulate pages frameCount) ! (i - 1))) \<le>
              occupied (frames (fst (simulate pages frameCount) ! i)) \<and>
            occupied (frames (fst (simulate pages frameCount) ! i)) \<le>
              occupied (frames (fst (simulate pages frameCount) ! (i - 1))) + 1) \<and>
         (\<forall>j. i \<le> j \<and> j < length pages \<and>
              occupied (frames (fst (simulate pages frameCount) ! i)) = frameCount \<longrightarrow>
              occupied (frames (fst (simulate pages frameCount) ! j)) = frameCount)"
proof -
  let ?tr = "fst (simulate pages frameCount)"
  let ?s = "run (take (Suc i) pages) frameCount"
  have pos: "0 < frameCount" using assms(1) by (rule validated_frames)
  have fr: "frames (?tr ! i) = memory ?s" using assms(2) by (rule trace_frames)
  have rk: "frameRanks (?tr ! i) = rankMap (loadOrder ?s)" using assms(2) by (rule trace_frameRanks)
  have inv: "queue_inv (memory ?s) (loadOrder ?s)" using pos by (rule queue_inv_run)
  have a: "set (resident (frames (?tr ! i))) = Num ` dom (frameRanks (?tr ! i))"
    using inv by (simp add: fr rk dom_rankMap queue_inv_resident)
  have b: "card (set (resident (frames (?tr ! i)))) = occupied (frames (?tr ! i))"
    using card_resident [OF inv] by (simp add: fr)
  have b': "card (dom (frameRanks (?tr ! i))) = occupied (frames (?tr ! i))"
    using card_resident [OF inv] by (simp add: fr rk dom_rankMap)
  have bound: "occupied (memory (run xs frameCount)) \<le> frameCount" for xs
    using occupied_le_length [of "memory (run xs frameCount)"] by (simp add: length_memory_run)
  have c: "occupied (frames (?tr ! i)) \<le> frameCount" using bound by (simp add: fr)
  have c': "length (frames (?tr ! i)) = frameCount" by (simp add: fr length_memory_run)
  have d: "i = 0 \<longrightarrow> occupied (frames (?tr ! i)) \<le> 1"
  proof
    assume "i = 0"
    have "occupied (memory (run (take 0 pages) frameCount)) = 0"
      by (simp add: run_Nil initial_def occupied_def resident_def)
    then have "occupied (memory ?s) \<le> 1"
      using occupied_step [OF pos assms(2)] \<open>i = 0\<close> by simp
    then show "occupied (frames (?tr ! i)) \<le> 1" by (simp only: fr)
  qed
  have e: "0 < i \<longrightarrow>
      occupied (frames (?tr ! (i - 1))) \<le> occupied (frames (?tr ! i)) \<and>
      occupied (frames (?tr ! i)) \<le> occupied (frames (?tr ! (i - 1))) + 1"
  proof
    assume "0 < i"
    then obtain k where k: "i = Suc k" by (cases i) auto
    then have "k < length pages" using assms(2) by simp
    then have "frames (?tr ! k) = memory (run (take i pages) frameCount)"
      using k by (simp add: trace_frames)
    then have prev: "frames (?tr ! (i - 1)) = memory (run (take i pages) frameCount)"
      using k by simp
    show "occupied (frames (?tr ! (i - 1))) \<le> occupied (frames (?tr ! i)) \<and>
      occupied (frames (?tr ! i)) \<le> occupied (frames (?tr ! (i - 1))) + 1"
      unfolding prev fr using assms(2) pos by (rule occupied_step [rotated])
  qed
  have f: "\<forall>j. i \<le> j \<and> j < length pages \<and> occupied (frames (?tr ! i)) = frameCount \<longrightarrow>
      occupied (frames (?tr ! j)) = frameCount"
  proof (intro allI impI)
    fix j
    assume j: "i \<le> j \<and> j < length pages \<and> occupied (frames (?tr ! i)) = frameCount"
    then have "occupied (memory ?s) \<le> occupied (memory (run (take (Suc j) pages) frameCount))"
      using occupied_mono [OF pos, of "Suc j" pages "Suc i"] by simp
    moreover have "frames (?tr ! j) = memory (run (take (Suc j) pages) frameCount)"
      using j by (simp add: trace_frames)
    ultimately show "occupied (frames (?tr ! j)) = frameCount"
      using j bound [of "take (Suc j) pages"] by (simp add: fr)
  qed
  show ?thesis using a b b' c c' d e f by blast
qed

theorem C4_occupancy_witness:
  "validated [1, 9, 3, 5] 3 \<and> (2 :: nat) < length [1, 9, 3, 5 :: int] \<and>
   set (resident (frames (fst (simulate [1, 9, 3, 5] 3) ! 2))) =
     Num ` dom (frameRanks (fst (simulate [1, 9, 3, 5] 3) ! 2)) \<and>
   card (dom (frameRanks (fst (simulate [1, 9, 3, 5] 3) ! 2))) = 3 \<and>
   occupied (frames (fst (simulate [1, 9, 3, 5] 3) ! (2 - 1))) \<le>
     occupied (frames (fst (simulate [1, 9, 3, 5] 3) ! 2)) \<and>
   occupied (frames (fst (simulate [1, 9, 3, 5] 3) ! 3)) = 3"
proof -
  have h1: "validated [1, 9, 3, 5] 3" by (simp add: validated_def)
  have h2: "(2 :: nat) < length [1, 9, 3, 5 :: int]" by simp
  have full: "occupied (frames (fst (simulate [1, 9, 3, 5] 3) ! 2)) = 3" by code_simp
  have later: "(2 :: nat) \<le> 3 \<and> (3 :: nat) < length [1, 9, 3, 5 :: int]" by simp
  have pos: "(0 :: nat) < 2" by simp
  show ?thesis using h1 h2 full later pos C4_occupancy [OF h1 h2] by metis
qed

text \<open>
  Claim C5. For validated pages and frame count, when the page of step \<open>i\<close> is in the
  frames array of the state before that step, the snapshot records no fault and no
  replaced page, the frames array and the queue after the step are those before it, this
  is not the first step, and the snapshot's frames and ranks are those of the previous
  snapshot.
\<close>

theorem C5_hit:
  assumes "validated pages frameCount" and "i < length pages"
    and "Num (pages ! i) \<in> set (memory (run (take i pages) frameCount))"
  shows "isFault (fst (simulate pages frameCount) ! i) = False \<and>
         replacedPage (fst (simulate pages frameCount) ! i) = Null \<and>
         memory (run (take (Suc i) pages) frameCount) = memory (run (take i pages) frameCount) \<and>
         loadOrder (run (take (Suc i) pages) frameCount) = loadOrder (run (take i pages) frameCount) \<and>
         0 < i \<and>
         frames (fst (simulate pages frameCount) ! i) = frames (fst (simulate pages frameCount) ! (i - 1)) \<and>
         frameRanks (fst (simulate pages frameCount) ! i) =
           frameRanks (fst (simulate pages frameCount) ! (i - 1))"
proof -
  let ?tr = "fst (simulate pages frameCount)"
  let ?s = "run (take i pages) frameCount"
  have r: "reference (memory ?s) (loadOrder ?s) (pages ! i) = (memory ?s, loadOrder ?s, False, Null)"
    using assms(3) by (rule reference_hit)
  have a: "isFault (?tr ! i) = False" using assms(2) r by (simp add: trace_isFault)
  have b: "replacedPage (?tr ! i) = Null" using assms(2) r by (simp add: trace_replacedPage)
  have c: "memory (run (take (Suc i) pages) frameCount) = memory ?s"
    using assms(2) r by (simp add: memory_step)
  have d: "loadOrder (run (take (Suc i) pages) frameCount) = loadOrder ?s"
    using assms(2) r by (simp add: loadOrder_step)
  have i0: "0 < i"
  proof (rule ccontr)
    assume "\<not> 0 < i"
    then have "memory ?s = replicate frameCount Null" by (simp add: run_Nil initial_def)
    with assms(3) show False by simp
  qed
  then obtain k where k: "i = Suc k" by (cases i) auto
  then have kl: "k < length pages" using assms(2) by simp
  have e: "frames (?tr ! i) = frames (?tr ! (i - 1))"
    using assms(2) kl k c by (simp add: trace_frames)
  have f: "frameRanks (?tr ! i) = frameRanks (?tr ! (i - 1))"
    using assms(2) kl k d by (simp add: trace_frameRanks)
  show ?thesis using a b c d i0 e f by blast
qed

theorem C5_hit_witness:
  "validated [4, 4, 2] 3 \<and> (1 :: nat) < length [4, 4, 2 :: int] \<and>
   Num ([4, 4, 2] ! 1) \<in> set (memory (run (take 1 [4, 4, 2]) 3)) \<and>
   isFault (fst (simulate [4, 4, 2] 3) ! 1) = False \<and>
   replacedPage (fst (simulate [4, 4, 2] 3) ! 1) = Null \<and>
   memory (run (take (Suc 1) [4, 4, 2]) 3) = memory (run (take 1 [4, 4, 2]) 3) \<and>
   loadOrder (run (take (Suc 1) [4, 4, 2]) 3) = loadOrder (run (take 1 [4, 4, 2]) 3) \<and>
   frames (fst (simulate [4, 4, 2] 3) ! 1) = frames (fst (simulate [4, 4, 2] 3) ! (1 - 1)) \<and>
   frameRanks (fst (simulate [4, 4, 2] 3) ! 1) = frameRanks (fst (simulate [4, 4, 2] 3) ! (1 - 1))"
proof -
  have h1: "validated [4, 4, 2] 3" by (simp add: validated_def)
  have h2: "(1 :: nat) < length [4, 4, 2 :: int]" by simp
  have h3: "Num ([4, 4, 2] ! 1) \<in> set (memory (run (take 1 [4, 4, 2]) 3))" by code_simp
  show ?thesis using h1 h2 h3 C5_hit [OF h1 h2 h3] by blast
qed

text \<open>
  Claim C6, as amended. Blank tokens are dropped before the checks. Take a frame count
  that is a number and an input whose non-blank tokens each parse as an integer or are
  non-numeric. Then the four checks are made in the order invalid format, negative
  reference, length out of range, frame count out of range, and the first one that fails
  is the one reported: each error is returned exactly when every earlier rule holds and
  its own is broken, and validation succeeds exactly when all four rules hold. In
  particular, every input with a non-blank token that is non-numeric fails with the
  invalid format error, whatever its other tokens and the frame count are. Nothing is
  stated about tokens that start with digits and go on with something else, nor about a
  frame count that is \<^verbatim>\<open>NaN\<close>.
\<close>

theorem C6_validation_order_amended:
  "(list_all (\<lambda>t. integer_token t \<or> non_numeric_token t) (tokens raw) \<longrightarrow>
      (validate raw (Some n) = Inl InvalidFormat \<longleftrightarrow>
         (\<exists>t \<in> set (tokens raw). \<not> integer_token t)) \<and>
      (validate raw (Some n) = Inl NegativeReference \<longleftrightarrow>
         (\<forall>t \<in> set (tokens raw). integer_token t) \<and>
         (\<exists>t \<in> set (tokens raw). integer_token_value t < 0)) \<and>
      (validate raw (Some n) = Inl LengthOutOfRange \<longleftrightarrow>
         (\<forall>t \<in> set (tokens raw). integer_token t \<and> 0 \<le> integer_token_value t) \<and>
         (length (tokens raw) = 0 \<or> 10 < length (tokens raw))) \<and>
      (validate raw (Some n) = Inl FrameCountOutOfRange \<longleftrightarrow>
         (\<forall>t \<in> set (tokens raw). integer_token t \<and> 0 \<le> integer_token_value t) \<and>
         1 \<le> length (tokens raw) \<and> length (tokens raw) \<le> 10 \<and> (n < 3 \<or> 5 < n)) \<and>
      ((\<exists>pages. validate raw (Some n) = Inr (pages, Some n)) \<longleftrightarrow>
         (\<forall>t \<in> set (tokens raw). integer_token t \<and> 0 \<le> integer_token_value t) \<and>
         1 \<le> length (tokens raw) \<and> length (tokens raw) \<le> 10 \<and> 3 \<le> n \<and> n \<le> 5)) \<and>
   (\<forall>s \<in> set (split CHR '','' raw).
      trim s \<noteq> [] \<and> non_numeric_token (trim s) \<longrightarrow> validate raw fc = Inl InvalidFormat)"
proof (intro conjI impI ballI)
  assume H: "list_all (\<lambda>t. integer_token t \<or> non_numeric_token t) (tokens raw)"
  have r: "parseInt t = None \<longleftrightarrow> \<not> integer_token t" if "t \<in> set (tokens raw)" for t
    using H that by (rule token_readable)
  have ok: "(\<forall>t \<in> set (tokens raw). parseInt t \<noteq> None \<and> \<not> num_less (parseInt t) 0) \<longleftrightarrow>
            (\<forall>t \<in> set (tokens raw). integer_token t \<and> 0 \<le> integer_token_value t)"
    using r token_negative by (metis not_le)
  show "validate raw (Some n) = Inl InvalidFormat \<longleftrightarrow> (\<exists>t \<in> set (tokens raw). \<not> integer_token t)"
    unfolding validate_InvalidFormat_iff using r by blast
  show "validate raw (Some n) = Inl NegativeReference \<longleftrightarrow>
         (\<forall>t \<in> set (tokens raw). integer_token t) \<and>
         (\<exists>t \<in> set (tokens raw). integer_token_value t < 0)"
    unfolding validate_NegativeReference_iff using r token_negative by blast
  show "validate raw (Some n) = Inl LengthOutOfRange \<longleftrightarrow>
         (\<forall>t \<in> set (tokens raw). integer_token t \<and> 0 \<le> integer_token_value t) \<and>
         (length (tokens raw) = 0 \<or> 10 < length (tokens raw))"
    unfolding validate_LengthOutOfRange_iff ok by simp
  show "validate raw (Some n) = Inl FrameCountOutOfRange \<longleftrightarrow>
         (\<forall>t \<in> set (tokens raw). integer_token t \<and> 0 \<le> integer_token_value t) \<and>
         1 \<le> length (tokens raw) \<and> length (tokens raw) \<le> 10 \<and> (n < 3 \<or> 5 < n)"
    unfolding validate_FrameCountOutOfRange_iff ok by (simp add: num_less_def num_greater_def)
  show "(\<exists>pages. validate raw (Some n) = Inr (pages, Some n)) \<longleftrightarrow>
         (\<forall>t \<in> set (tokens raw). integer_token t \<and> 0 \<le> integer_token_value t) \<and>
         1 \<le> length (tokens raw) \<and> length (tokens raw) \<le> 10 \<and> 3 \<le> n \<and> n \<le> 5"
    unfolding validate_Inr_iff ok by (auto simp: num_less_def num_greater_def)
next
  fix s
  assume "s \<in> set (split CHR '','' raw)" and "trim s \<noteq> [] \<and> non_numeric_token (trim s)"
  then show "validate raw fc = Inl InvalidFormat" by (simp add: non_numeric_InvalidFormat)
qed

theorem C6_validation_order_amended_witness:
  "list_all (\<lambda>t. integer_token t \<or> non_numeric_token t) (tokens ''1,a,-2'') \<and>
   ''a'' \<in> set (tokens ''1,a,-2'') \<and> \<not> integer_token ''a'' \<and>
   validate ''1,a,-2'' (Some 9) = Inl InvalidFormat \<and>
   list_all (\<lambda>t. integer_token t \<or> non_numeric_token t) (tokens ''3, -2 ,,1'') \<and>
   ''-2'' \<in> set (tokens ''3, -2 ,,1'') \<and> integer_token_value ''-2'' < 0 \<and>
   validate ''3, -2 ,,1'' (Some 9) = Inl NegativeReference"
proof -
  have h1: "list_all (\<lambda>t. integer_token t \<or> non_numeric_token t) (tokens ''1,a,-2'')"
    by code_simp
  have h2: "''a'' \<in> set (tokens ''1,a,-2'') \<and> \<not> integer_token ''a''" by code_simp
  have a: "validate ''1,a,-2'' (Some 9) = Inl InvalidFormat"
    using h1 h2 C6_validation_order_amended [of "''1,a,-2''" 9] by blast
  have k1: "list_all (\<lambda>t. integer_token t \<or> non_numeric_token t) (tokens ''3, -2 ,,1'')"
    by code_simp
  have k2: "''-2'' \<in> set (tokens ''3, -2 ,,1'') \<and> integer_token_value ''-2'' < 0" by code_simp
  have k3: "\<forall>t \<in> set (tokens ''3, -2 ,,1''). integer_token t" by code_simp
  have b: "validate ''3, -2 ,,1'' (Some 9) = Inl NegativeReference"
    using k1 k2 k3 C6_validation_order_amended [of "''3, -2 ,,1''" 9] by blast
  show ?thesis using h1 h2 a k1 k2 b by blast
qed

text \<open>
  Claim C6 as stated has every input with an empty token fail with the invalid format
  error. The callback drops blank tokens before it checks anything: the input \<^verbatim>\<open>1,,2\<close>
  has an empty token and validates to the pages 1, 2.
\<close>

theorem C6_counterexample:
  "[] \<in> set (split CHR '','' ''1,,2'') \<and> validate ''1,,2'' (Some 3) = Inr ([1, 2], Some 3)"
  by code_simp

text \<open>
  Claim C7, as amended. On the twelve references 1, 2, 3, 4, 1, 2, 5, 1, 2, 3, 4, 5 the
  loop counts 9 faults with 3 frames and 10 with 4 frames. The callback never runs the
  loop on them: no input validates to this page list, and the input that spells it out
  fails with the length error for every frame count.
\<close>

theorem C7_belady_amended:
  "snd (simulate [1, 2, 3, 4, 1, 2, 5, 1, 2, 3, 4, 5] 3) = 9 \<and>
   snd (simulate [1, 2, 3, 4, 1, 2, 5, 1, 2, 3, 4, 5] 4) = 10 \<and>
   validate raw frameCount \<noteq> Inr ([1, 2, 3, 4, 1, 2, 5, 1, 2, 3, 4, 5], fc) \<and>
   runFIFOSimulation ''1,2,3,4,1,2,5,1,2,3,4,5'' frameCount = Inl LengthOutOfRange"
proof -
  have a: "snd (simulate [1, 2, 3, 4, 1, 2, 5, 1, 2, 3, 4, 5] 3) = 9" by code_simp
  have b: "snd (simulate [1, 2, 3, 4, 1, 2, 5, 1, 2, 3, 4, 5] 4) = 10" by code_simp
  have c: "validate raw frameCount \<noteq> Inr ([1, 2, 3, 4, 1, 2, 5, 1, 2, 3, 4, 5], fc)"
    using validate_validated [of raw frameCount "[1, 2, 3, 4, 1, 2, 5, 1, 2, 3, 4, 5]" fc] by auto
  have "validate ''1,2,3,4,1,2,5,1,2,3,4,5'' None = Inl LengthOutOfRange" by code_simp
  then have "validate ''1,2,3,4,1,2,5,1,2,3,4,5'' frameCount = Inl LengthOutOfRange"
    by (rule validate_LengthOutOfRange_any)
  then have d: "runFIFOSimulation ''1,2,3,4,1,2,5,1,2,3,4,5'' frameCount = Inl LengthOutOfRange"
    by (simp add: runFIFOSimulation_def)
  show ?thesis using a b c d by blast
qed

text \<open>
  Claim C7 as stated has the scenario reproduced through the system. The callback
  rejects the twelve references at the third check.
\<close>

theorem C7_counterexample:
  "runFIFOSimulation ''1,2,3,4,1,2,5,1,2,3,4,5'' (Some 3) = Inl LengthOutOfRange"
proof -
  have "validate ''1,2,3,4,1,2,5,1,2,3,4,5'' (Some 3) = Inl LengthOutOfRange" by code_simp
  then show ?thesis by (simp add: runFIFOSimulation_def)
qed

text \<open>
  Claim C8. For validated pages and frame count, whenever step \<open>i\<close> is a replacement (the
  page is not in the frames array and the search for \<^verbatim>\<open>null\<close> gives -1), the queue before
  the step is not empty, \<^verbatim>\<open>shift\<close> returns its front and not \<^verbatim>\<open>undefined\<close>, the front is in
  the frames array, and the search for it gives an index inside the array that holds it;
  it is the page the snapshot records as replaced.
\<close>

theorem C8_victim_resident:
  assumes "validated pages frameCount" and "i < length pages"
    and "Num (pages ! i) \<notin> set (memory (run (take i pages) frameCount))"
    and "indexOf (memory (run (take i pages) frameCount)) Null = - 1"
  shows "\<exists>v rest. loadOrder (run (take i pages) frameCount) = v # rest \<and>
           shift (loadOrder (run (take i pages) frameCount)) = (Num v, rest) \<and>
           Num v \<in> set (memory (run (take i pages) frameCount)) \<and>
           0 \<le> indexOf (memory (run (take i pages) frameCount)) (Num v) \<and>
           indexOf (memory (run (take i pages) frameCount)) (Num v) < int frameCount \<and>
           memory (run (take i pages) frameCount) !
             nat (indexOf (memory (run (take i pages) frameCount)) (Num v)) = Num v \<and>
           replacedPage (fst (simulate pages frameCount) ! i) = Num v"
proof -
  let ?s = "run (take i pages) frameCount"
  have pos: "0 < frameCount" using assms(1) by (rule validated_frames)
  have inv: "queue_inv (memory ?s) (loadOrder ?s)" using pos by (rule queue_inv_run)
  have ne: "memory ?s \<noteq> []" using pos by (rule memory_run_nonempty)
  have full: "Null \<notin> set (memory ?s)" using assms(4) indexOf_found_iff [of "memory ?s" Null] by simp
  from reference_evict [OF assms(3) full inv ne] obtain v rest A B where
    v: "loadOrder ?s = v # rest" "memory ?s = A @ Num v # B" "Num v \<notin> set A"
       "reference (memory ?s) (loadOrder ?s) (pages ! i) = (A @ Num (pages ! i) # B, rest @ [pages ! i], True, Num v)"
    by blast
  have ix: "indexOf (memory ?s) (Num v) = int (length A)"
    using v(2,3) by (simp add: indexOf_first)
  have len: "length (memory ?s) = frameCount" by (rule length_memory_run)
  have a: "shift (loadOrder ?s) = (Num v, rest)" using v(1) by simp
  have b: "Num v \<in> set (memory ?s)" using v(2) by simp
  have c: "0 \<le> indexOf (memory ?s) (Num v)" using ix by simp
  have d: "indexOf (memory ?s) (Num v) < int frameCount" using ix len v(2) by simp
  have e: "memory ?s ! nat (indexOf (memory ?s) (Num v)) = Num v" using ix v(2) by simp
  have f: "replacedPage (fst (simulate pages frameCount) ! i) = Num v"
    using assms(2) v(4) by (simp add: trace_replacedPage)
  show ?thesis using v(1) a b c d e f by blast
qed

theorem C8_victim_resident_witness:
  "validated [1, 9, 3, 5] 3 \<and> (3 :: nat) < length [1, 9, 3, 5 :: int] \<and>
   Num ([1, 9, 3, 5] ! 3) \<notin> set (memory (run (take 3 [1, 9, 3, 5]) 3)) \<and>
   indexOf (memory (run (take 3 [1, 9, 3, 5]) 3)) Null = - 1 \<and>
   (\<exists>v rest. loadOrder (run (take 3 [1, 9, 3, 5]) 3) = v # rest \<and>
      shift (loadOrder (run (take 3 [1, 9, 3, 5]) 3)) = (Num v, rest) \<and>
      Num v \<in> set (memory (run (take 3 [1, 9, 3, 5]) 3)) \<and>
      0 \<le> indexOf (memory (run (take 3 [1, 9, 3, 5]) 3)) (Num v) \<and>
      indexOf (memory (run (take 3 [1, 9, 3, 5]) 3)) (Num v) < int 3 \<and>
      memory (run (take 3 [1, 9, 3, 5]) 3) !
        nat (indexOf (memory (run (take 3 [1, 9, 3, 5]) 3)) (Num v)) = Num v \<and>
      replacedPage (fst (simulate [1, 9, 3, 5] 3) ! 3) = Num v)"
proof -
  have h1: "validated [1, 9, 3, 5] 3" by (simp add: validated_def)
  have h2: "(3 :: nat) < length [1, 9, 3, 5 :: int]" by simp
  have h3: "Num ([1, 9, 3, 5] ! 3) \<notin> set (memory (run (take 3 [1, 9, 3, 5]) 3))" by code_simp
  have h4: "indexOf (memory (run (take 3 [1, 9, 3, 5]) 3)) Null = - 1" by code_simp
  show ?thesis using h1 h2 h3 h4 C8_victim_resident [OF h1 h2 h3 h4] by blast
qed

text \<open>
  Claim C9. With at least one frame, in every snapshot the non-empty entries of the frames
  array are pairwise distinct (and each of them is a page number).
\<close>

theorem C9_resident_distinct:
  assumes "0 < frameCount" and "snap \<in> set (fst (simulate pages frameCount))"
  shows "distinct (resident (frames snap)) \<and> Undefined \<notin> set (frames snap)"
proof -
  from assms(2) obtain i where i: "i < length pages" "snap = fst (simulate pages frameCount) ! i"
    by (metis in_set_conv_nth length_trace)
  have "queue_inv (memory (run (take (Suc i) pages) frameCount))
          (loadOrder (run (take (Suc i) pages) frameCount))"
    using assms(1) by (rule queue_inv_run)
  then show ?thesis using i by (simp add: trace_frames queue_inv_distinct queue_inv_no_undefined)
qed

theorem C9_resident_distinct_witness:
  "(0 :: nat) < 3 \<and>
   fst (simulate [4, 4, 2] 3) ! 1 \<in> set (fst (simulate [4, 4, 2] 3)) \<and>
   distinct (resident (frames (fst (simulate [4, 4, 2] 3) ! 1))) \<and>
   Undefined \<notin> set (frames (fst (simulate [4, 4, 2] 3) ! 1))"
proof -
  have h1: "(0 :: nat) < 3" by simp
  have h2: "fst (simulate [4, 4, 2] 3) ! 1 \<in> set (fst (simulate [4, 4, 2] 3))"
    by (rule nth_mem) (simp add: length_trace)
  show ?thesis using h1 h2 C9_resident_distinct [OF h1 h2] by blast
qed

text \<open>
  Claim C10. With at least one frame, a snapshot that has a replaced page is a fault, and
  the replaced page is not the page referenced.
\<close>

theorem C10_replaced_is_fault:
  assumes "0 < frameCount" and "snap \<in> set (fst (simulate pages frameCount))"
    and "replacedPage snap \<noteq> Null"
  shows "isFault snap \<and> replacedPage snap \<noteq> Num (pageReference snap)"
proof -
  from assms(2) obtain i where i: "i < length pages" "snap = fst (simulate pages frameCount) ! i"
    by (metis in_set_conv_nth length_trace)
  let ?s = "run (take i pages) frameCount"
  have inv: "queue_inv (memory ?s) (loadOrder ?s)" using assms(1) by (rule queue_inv_run)
  have ne: "memory ?s \<noteq> []" using assms(1) by (rule memory_run_nonempty)
  have "snd (snd (snd (reference (memory ?s) (loadOrder ?s) (pages ! i)))) \<noteq> Null"
    using assms(3) i by (simp add: trace_replacedPage)
  from reference_replaced [OF inv ne this] obtain v where
    v: "Num (pages ! i) \<notin> set (memory ?s)" "Num v \<in> set (memory ?s)"
       "snd (snd (reference (memory ?s) (loadOrder ?s) (pages ! i))) = (True, Num v)"
    by blast
  have "isFault snap" using i v(3) by (simp add: trace_isFault)
  moreover have "replacedPage snap = Num v" using i v(3) by (simp add: trace_replacedPage)
  moreover have "pageReference snap = pages ! i" using i by (simp add: trace_pageReference)
  moreover have "v \<noteq> pages ! i" using v(1,2) by auto
  ultimately show ?thesis by simp
qed

theorem C10_replaced_is_fault_witness:
  "(0 :: nat) < 3 \<and>
   fst (simulate [1, 9, 3, 5] 3) ! 3 \<in> set (fst (simulate [1, 9, 3, 5] 3)) \<and>
   replacedPage (fst (simulate [1, 9, 3, 5] 3) ! 3) \<noteq> Null \<and>
   isFault (fst (simulate [1, 9, 3, 5] 3) ! 3) \<and>
   replacedPage (fst (simulate [1, 9, 3, 5] 3) ! 3) \<noteq>
     Num (pageReference (fst (simulate [1, 9, 3, 5] 3) ! 3))"
proof -
  have h1: "(0 :: nat) < 3" by simp
  have h2: "fst (simulate [1, 9, 3, 5] 3) ! 3 \<in> set (fst (simulate [1, 9, 3, 5] 3))"
    by (rule nth_mem) (simp add: length_trace)
  have h3: "replacedPage (fst (simulate [1, 9, 3, 5] 3) ! 3) \<noteq> Null" by code_simp
  show ?thesis using h1 h2 h3 C10_replaced_is_fault [OF h1 h2 h3] by blast
qed

end
